theory Spec2Isabelle
  imports Complex_Main "HOL-Library.Multiset"
begin

section \<open>Data model\<close>

text \<open>
  The numbers of the program (box coordinates, scores, thresholds, areas and their
  quotient) are modelled as exact rationals: the development reasons about the arithmetic
  the code writes down, with every operation exact. The rounding of 64-bit floating
  point and the wrap-around of 64-bit integer arrays are outside the model.

  A box is the four-element row \<open>[x1, y1, x2, y2]\<close> of the source, read by the indices
  0 to 3.
\<close>

type_synonym box = "rat \<times> rat \<times> rat \<times> rat"

text \<open>
  A prediction is the seven-element row \<open>[x1, y1, x2, y2, score, class_id, class_name]\<close>
  of \<open>raw_predictions\<close>; the rows appended to \<open>final_predictions_with_classes\<close> have the
  same shape.
\<close>

record prediction =
  pbox :: box
  score :: rat
  class_id :: int
  class_name :: string

text \<open>The exceptions the modelled statements can raise.\<close>

datatype error = ZeroDivisionError | IndexError | ValueError

section \<open>Intersection over union\<close>

text \<open>The division \<open>a / b\<close> of the source, failing on a zero divisor.\<close>

definition true_divide :: "rat \<Rightarrow> rat \<Rightarrow> error + rat" where
  "true_divide a b = (if b = 0 then Inl ZeroDivisionError else Inr (a / b))"

definition iou :: "box \<Rightarrow> box \<Rightarrow> error + rat" where
  "iou box1 box2 =
     (case box1 of (a0, a1, a2, a3) \<Rightarrow>
      case box2 of (b0, b1, b2, b3) \<Rightarrow>
        let x1_inter = max a0 b0;
            y1_inter = max a1 b1;
            x2_inter = min a2 b2;
            y2_inter = min a3 b3;
            inter_width = max 0 (x2_inter - x1_inter);
            inter_height = max 0 (y2_inter - y1_inter);
            inter_area = inter_width * inter_height;
            box1_area = (a2 - a0) * (a3 - a1);
            box2_area = (b2 - b0) * (b3 - b1);
            union_area = box1_area + box2_area - inter_area
        in if union_area = 0 then Inr 0 else true_divide inter_area union_area)"

section \<open>Array operations used by the program\<close>

text \<open>\<open>xs[i]\<close>: raises IndexError out of range.\<close>

definition getitem :: "'a list \<Rightarrow> nat \<Rightarrow> error + 'a" where
  "getitem xs i = (if i < length xs then Inr (xs ! i) else Inl IndexError)"

text \<open>\<open>[xs[i] for i in idxs]\<close>: the first failing read ends the comprehension.\<close>

fun getitems :: "'a list \<Rightarrow> nat list \<Rightarrow> error + 'a list" where
  "getitems xs [] = Inr []"
| "getitems xs (i # idxs) =
     (case getitem xs i of
        Inl e \<Rightarrow> Inl e
      | Inr v \<Rightarrow> (case getitems xs idxs of Inl e \<Rightarrow> Inl e | Inr vs \<Rightarrow> Inr (v # vs)))"

text \<open>
  \<open>np.argsort(scores)\<close>: the indices of \<open>scores\<close> in ascending order of score. The
  default sort kind of numpy promises no particular order among equal scores; the model
  fixes the stable one (equal scores stay in input order), as an insertion sort of the
  index range. The order among equal scores is used only in statements about pools of
  two detections; every general theorem below holds for any ascending order of the
  indices.
\<close>

definition argsort :: "rat list \<Rightarrow> nat list" where
  "argsort scores = sort_key (\<lambda>i. scores ! i) [0..<length scores]"

text \<open>
  The order the specification names as the reference for ties, in its own words: a
  stable sort of the indices over the negated score. It is stated here only to be
  compared with the order \<open>rev (argsort scores)\<close> that the program computes.
\<close>

definition spec_stable_descending_order :: "rat list \<Rightarrow> nat list" where
  "spec_stable_descending_order scores = sort_key (\<lambda>i. - (scores ! i)) [0..<length scores]"

text \<open>\<open>np.where(np.array(xs) < t)[0]\<close>: the positions of the entries below \<open>t\<close>, ascending.\<close>

definition where_lt :: "rat list \<Rightarrow> rat \<Rightarrow> nat list" where
  "where_lt xs t = filter (\<lambda>i. xs ! i < t) [0..<length xs]"

text \<open>\<open>np.where(xs >= t)[0]\<close>: the positions of the entries at or above \<open>t\<close>, ascending.\<close>

definition where_ge :: "rat list \<Rightarrow> rat \<Rightarrow> nat list" where
  "where_ge xs t = filter (\<lambda>i. xs ! i \<ge> t) [0..<length xs]"

text \<open>
  \<open>xs[positions]\<close> for positions produced by \<open>np.where\<close> over an array as long as \<open>xs\<close>:
  every position is in range (lemmas \<open>where_lt_in_range\<close>, \<open>where_ge_in_range\<close>).
\<close>

definition select :: "'a list \<Rightarrow> nat list \<Rightarrow> 'a list" where
  "select xs positions = map (\<lambda>i. xs ! i) positions"

section \<open>Non-maximum suppression\<close>

text \<open>
  \<open>[iou(boxes[best_box_idx], boxes[idx]) for idx in sorted_indices]\<close>: each element reads
  both boxes and then calls \<open>iou\<close>.
\<close>

fun ious_of :: "box list \<Rightarrow> nat \<Rightarrow> nat list \<Rightarrow> error + rat list" where
  "ious_of boxes best_box_idx [] = Inr []"
| "ious_of boxes best_box_idx (idx # idxs) =
     (case getitem boxes best_box_idx of
        Inl e \<Rightarrow> Inl e
      | Inr b \<Rightarrow>
     (case getitem boxes idx of
        Inl e \<Rightarrow> Inl e
      | Inr c \<Rightarrow>
     (case iou b c of
        Inl e \<Rightarrow> Inl e
      | Inr v \<Rightarrow>
     (case ious_of boxes best_box_idx idxs of
        Inl e \<Rightarrow> Inl e
      | Inr vs \<Rightarrow> Inr (v # vs)))))"

lemma ious_of_length: "ious_of boxes b idxs = Inr vs \<Longrightarrow> length vs = length idxs"
  by (induction idxs arbitrary: vs) (auto split: sum.splits)

lemma where_lt_length: "length (where_lt xs t) \<le> length xs"
  unfolding where_lt_def using length_filter_le [of _ "[0..<length xs]"] by simp

text \<open>
  The \<open>while\<close> loop of \<open>non_max_suppression\<close>, on the state \<open>(sorted_indices, keep_boxes)\<close>;
  it returns the final \<open>keep_boxes\<close>.
\<close>

function nms_loop :: "box list \<Rightarrow> rat \<Rightarrow> nat list \<Rightarrow> nat list \<Rightarrow> error + nat list" where
  "nms_loop boxes iou_threshold [] keep_boxes = Inr keep_boxes"
| "nms_loop boxes iou_threshold (best_box_idx # sorted_indices) keep_boxes =
     (if length sorted_indices = 0 then Inr (keep_boxes @ [best_box_idx])
      else case ious_of boxes best_box_idx sorted_indices of
        Inl e \<Rightarrow> Inl e
      | Inr ious \<Rightarrow>
          nms_loop boxes iou_threshold
            (select sorted_indices (where_lt ious iou_threshold))
            (keep_boxes @ [best_box_idx]))"
  by pat_completeness auto
termination
proof (relation "measure (\<lambda>(boxes, t, sorted_indices, keep_boxes). length sorted_indices)")
  show "wf (measure (\<lambda>(boxes, t, sorted_indices, keep_boxes). length sorted_indices))"
    by simp
next
  fix boxes :: "box list" and iou_threshold :: rat and best_box_idx :: nat
    and sorted_indices keep_boxes :: "nat list" and ious :: "rat list"
  assume "ious_of boxes best_box_idx sorted_indices = Inr ious"
  then have "length ious = length sorted_indices"
    by (rule ious_of_length)
  then have "length (select sorted_indices (where_lt ious iou_threshold)) \<le> length sorted_indices"
    using where_lt_length [of ious iou_threshold] by (simp add: select_def)
  then show "((boxes, iou_threshold, select sorted_indices (where_lt ious iou_threshold),
               keep_boxes @ [best_box_idx]),
              (boxes, iou_threshold, best_box_idx # sorted_indices, keep_boxes))
             \<in> measure (\<lambda>(boxes, t, sorted_indices, keep_boxes). length sorted_indices)"
    by simp
qed

text \<open>
  What \<open>non_max_suppression\<close> returns: the bare empty list of its first \<open>return\<close>, or the
  pair of lists of its last one.
\<close>

datatype nms_result = EmptyList | BoxesScores "box list" "rat list"

definition non_max_suppression :: "box list \<Rightarrow> rat list \<Rightarrow> rat \<Rightarrow> error + nms_result" where
  "non_max_suppression boxes scores iou_threshold =
     (if length boxes = 0 then Inr EmptyList
      else
        let sorted_indices = rev (argsort scores) in
        case nms_loop boxes iou_threshold sorted_indices [] of
          Inl e \<Rightarrow> Inl e
        | Inr keep_boxes \<Rightarrow>
            (case getitems boxes keep_boxes of
               Inl e \<Rightarrow> Inl e
             | Inr kept_boxes \<Rightarrow>
                 (case getitems scores keep_boxes of
                    Inl e \<Rightarrow> Inl e
                  | Inr kept_scores \<Rightarrow> Inr (BoxesScores kept_boxes kept_scores))))"

section \<open>The pipeline of main\<close>

text \<open>
  \<open>final_boxes, final_scores = ...\<close>: unpacking into two names needs exactly two
  elements; the empty list has none and raises ValueError.
\<close>

definition unpack2 :: "nms_result \<Rightarrow> error + (box list \<times> rat list)" where
  "unpack2 r = (case r of EmptyList \<Rightarrow> Inl ValueError | BoxesScores bs ss \<Rightarrow> Inr (bs, ss))"

text \<open>
  The reassembly loop: for each final box and score, the first position of the filtered
  arrays holding an equal box and an equal score supplies the class; the inner loop
  breaks there, and appends nothing when no position matches.
\<close>

fun reassemble ::
  "box list \<Rightarrow> rat list \<Rightarrow> int list \<Rightarrow> string list \<Rightarrow> (box \<times> rat) list \<Rightarrow> prediction list" where
  "reassemble filtered_boxes filtered_scores filtered_class_ids filtered_class_names [] = []"
| "reassemble filtered_boxes filtered_scores filtered_class_ids filtered_class_names
     ((final_box, final_score) # rest) =
     (case find (\<lambda>i. final_box = filtered_boxes ! i \<and> final_score = filtered_scores ! i)
             [0..<length filtered_boxes] of
        None \<Rightarrow> []
      | Some i \<Rightarrow>
          [\<lparr>pbox = final_box, score = final_score,
            class_id = filtered_class_ids ! i, class_name = filtered_class_names ! i\<rparr>])
     @ reassemble filtered_boxes filtered_scores filtered_class_ids filtered_class_names rest"

text \<open>
  The body of \<open>main\<close> from the split of \<open>raw_predictions\<close> to
  \<open>final_predictions_with_classes\<close>, with the sample data and the two thresholds as
  parameters; printing is left out.
\<close>

definition pipeline :: "prediction list \<Rightarrow> rat \<Rightarrow> rat \<Rightarrow> error + prediction list" where
  "pipeline raw_predictions score_threshold iou_threshold =
     (let boxes = map pbox raw_predictions;
          scores = map score raw_predictions;
          class_ids = map class_id raw_predictions;
          class_names = map class_name raw_predictions;
          high_confidence_indices = where_ge scores score_threshold;
          filtered_boxes = select boxes high_confidence_indices;
          filtered_scores = select scores high_confidence_indices;
          filtered_class_ids = select class_ids high_confidence_indices;
          filtered_class_names = select class_names high_confidence_indices
      in case non_max_suppression filtered_boxes filtered_scores iou_threshold of
           Inl e \<Rightarrow> Inl e
         | Inr r \<Rightarrow>
             (case unpack2 r of
                Inl e \<Rightarrow> Inl e
              | Inr (final_boxes, final_scores) \<Rightarrow>
                  Inr (reassemble filtered_boxes filtered_scores filtered_class_ids
                         filtered_class_names (zip final_boxes final_scores))))"

text \<open>
  The sample data of \<open>main\<close> (class names written without their diacritics) and its
  run with both thresholds at 0.5.
\<close>

definition raw_predictions :: "prediction list" where
  "raw_predictions =
     [\<lparr>pbox = (55, 55, 145, 195), score = 95/100, class_id = 0, class_name = ''nguoi''\<rparr>,
      \<lparr>pbox = (60, 60, 160, 210), score = 88/100, class_id = 0, class_name = ''nguoi''\<rparr>,
      \<lparr>pbox = (205, 105, 295, 245), score = 92/100, class_id = 0, class_name = ''nguoi''\<rparr>,
      \<lparr>pbox = (200, 100, 300, 250), score = 70/100, class_id = 0, class_name = ''nguoi''\<rparr>,
      \<lparr>pbox = (405, 205, 545, 395), score = 90/100, class_id = 1, class_name = ''xe''\<rparr>,
      \<lparr>pbox = (410, 210, 560, 410), score = 65/100, class_id = 1, class_name = ''xe''\<rparr>,
      \<lparr>pbox = (10, 10, 30, 30), score = 30/100, class_id = 0, class_name = ''nguoi''\<rparr>,
      \<lparr>pbox = (500, 10, 550, 60), score = 80/100, class_id = 0, class_name = ''nguoi''\<rparr>]"

definition main :: "error + prediction list" where
  "main = pipeline raw_predictions (1/2) (1/2)"

section \<open>Basic facts about the array operations\<close>

lemma iou_total: "\<exists>v. iou box1 box2 = Inr v"
  by (cases box1; cases box2) (simp add: iou_def true_divide_def Let_def)

lemma getitems_in_range:
  "list_all (\<lambda>i. i < length xs) idxs \<Longrightarrow> getitems xs idxs = Inr (map (\<lambda>i. xs ! i) idxs)"
  by (induction idxs) (simp_all add: getitem_def)

lemma where_ge_in_range: "list_all (\<lambda>i. i < length xs) (where_ge xs t)"
  by (simp add: where_ge_def list_all_iff)

lemma where_lt_in_range: "list_all (\<lambda>i. i < length xs) (where_lt xs t)"
  by (simp add: where_lt_def list_all_iff)

text \<open>Selecting the positions whose entry satisfies a test is filtering by that test.\<close>

lemma select_where:
  "select xs (filter (\<lambda>i. P (xs ! i)) [0..<length xs]) = filter P xs"
proof -
  have "map (\<lambda>i. xs ! i) (filter (P \<circ> (\<lambda>i. xs ! i)) [0..<length xs])
        = filter P (map (\<lambda>i. xs ! i) [0..<length xs])"
    by (simp only: filter_map)
  then show ?thesis
    by (simp add: select_def map_nth comp_def)
qed

lemma select_map_where_ge:
  "select (map g xs) (where_ge (map f xs) t) = map g (filter (\<lambda>x. f x \<ge> t) xs)"
proof -
  have "where_ge (map f xs) t = filter (\<lambda>i. f (xs ! i) \<ge> t) [0..<length xs]"
    by (auto simp: where_ge_def intro: filter_cong)
  moreover have "select (map g xs) is = map g (select xs is)"
    if "list_all (\<lambda>i. i < length xs) is" for "is"
    using that by (simp add: select_def list_all_iff)
  moreover have "list_all (\<lambda>i. i < length xs) (filter (\<lambda>i. f (xs ! i) \<ge> t) [0..<length xs])"
    by (simp add: list_all_iff)
  ultimately show ?thesis
    using select_where [where P = "\<lambda>x. f x \<ge> t" and xs = xs] by simp
qed

lemma select_where_lt_map:
  "select idxs (where_lt (map f idxs) t) = filter (\<lambda>idx. f idx < t) idxs"
proof -
  have "where_lt (map f idxs) t = filter (\<lambda>i. f (idxs ! i) < t) [0..<length idxs]"
    by (auto simp: where_lt_def intro: filter_cong)
  then show ?thesis
    using select_where [where P = "\<lambda>idx. f idx < t" and xs = idxs] by simp
qed

lemma ious_of_in_range:
  "best < length boxes \<Longrightarrow> list_all (\<lambda>i. i < length boxes) idxs \<Longrightarrow>
   ious_of boxes best idxs = Inr (map (\<lambda>idx. projr (iou (boxes ! best) (boxes ! idx))) idxs)"
proof (induction idxs)
  case Nil
  then show ?case by simp
next
  case (Cons idx idxs)
  obtain v where "iou (boxes ! best) (boxes ! idx) = Inr v"
    using iou_total by blast
  with Cons show ?case
    by (simp add: getitem_def)
qed

lemma iou_below_iff:
  "(\<exists>v. iou a b = Inr v \<and> v < t) \<longleftrightarrow> projr (iou a b) < t"
  using iou_total [of a b] by auto

section \<open>The loop of non-maximum suppression\<close>

text \<open>One round with candidates left: the anchor is kept and the candidates are filtered.\<close>

lemma nms_loop_round:
  assumes "best < length boxes" and "list_all (\<lambda>i. i < length boxes) rest" and "rest \<noteq> []"
  shows "nms_loop boxes t (best # rest) keep =
         nms_loop boxes t
           (filter (\<lambda>idx. projr (iou (boxes ! best) (boxes ! idx)) < t) rest) (keep @ [best])"
  using assms by (simp add: ious_of_in_range select_where_lt_map)

lemma nms_loop_kept:
  "list_all (\<lambda>i. i < length boxes) si \<Longrightarrow>
   \<exists>ks. nms_loop boxes t si keep = Inr (keep @ ks) \<and>
        set ks \<subseteq> set si \<and>
        (si \<noteq> [] \<longrightarrow> ks \<noteq> []) \<and>
        (distinct si \<longrightarrow> distinct ks) \<and>
        (\<forall>R. sorted_wrt R si \<longrightarrow> sorted_wrt R ks) \<and>
        sorted_wrt (\<lambda>a b. projr (iou (boxes ! a) (boxes ! b)) < t) ks"
proof (induction "length si" arbitrary: si keep rule: less_induct)
  case less
  show ?case
  proof (cases si)
    case Nil
    then show ?thesis by simp
  next
    case (Cons best rest)
    show ?thesis
    proof (cases "rest = []")
      case True
      with Cons show ?thesis by simp
    next
      case False
      let ?P = "\<lambda>idx. projr (iou (boxes ! best) (boxes ! idx)) < t"
      let ?next = "filter ?P rest"
      from less.prems Cons have best: "best < length boxes"
        and rest: "list_all (\<lambda>i. i < length boxes) rest"
        by simp_all
      have step: "nms_loop boxes t si keep = nms_loop boxes t ?next (keep @ [best])"
        unfolding Cons using best rest False by (rule nms_loop_round)
      have "length ?next < length si"
        unfolding Cons by (simp add: less_Suc_eq_le)
      moreover have "list_all (\<lambda>i. i < length boxes) ?next"
        using rest by (simp add: list_all_iff)
      ultimately obtain ks where ks: "nms_loop boxes t ?next (keep @ [best]) = Inr ((keep @ [best]) @ ks)"
        "set ks \<subseteq> set ?next" "distinct ?next \<longrightarrow> distinct ks"
        "\<forall>R. sorted_wrt R ?next \<longrightarrow> sorted_wrt R ks"
        "sorted_wrt (\<lambda>a b. projr (iou (boxes ! a) (boxes ! b)) < t) ks"
        using less.hyps [of ?next "keep @ [best]"] by blast
      have "nms_loop boxes t si keep = Inr (keep @ best # ks)"
        using step ks(1) by simp
      moreover have "set (best # ks) \<subseteq> set si"
        using ks(2) Cons by auto
      moreover have "distinct (best # ks)" if "distinct si"
        using that ks(2,3) Cons by auto
      moreover have "sorted_wrt R (best # ks)" if "sorted_wrt R si" for R
      proof -
        from that Cons have "sorted_wrt R rest" and "\<forall>k\<in>set rest. R best k"
          by simp_all
        then have "sorted_wrt R ?next"
          by (simp add: sorted_wrt_filter)
        with ks(4) have "sorted_wrt R ks" by blast
        moreover have "\<forall>k\<in>set ks. R best k"
          using ks(2) \<open>\<forall>k\<in>set rest. R best k\<close> by auto
        ultimately show ?thesis by simp
      qed
      moreover have "sorted_wrt (\<lambda>a b. projr (iou (boxes ! a) (boxes ! b)) < t) (best # ks)"
        using ks(2,5) by auto
      ultimately show ?thesis
        by (intro exI [of _ "best # ks"]) blast
    qed
  qed
qed


lemma set_argsort: "set (argsort scores) = {..<length scores}"
  by (auto simp: argsort_def)

lemma distinct_argsort: "distinct (argsort scores)"
  by (simp add: argsort_def)

lemma length_argsort: "length (argsort scores) = length scores"
  by (simp add: argsort_def)

lemma sorted_argsort: "sorted (map (\<lambda>i. scores ! i) (argsort scores))"
  by (simp add: argsort_def)

lemma rev_argsort_descending:
  "sorted_wrt (\<lambda>a b. scores ! a \<ge> scores ! b) (rev (argsort scores))"
proof -
  have "sorted_wrt (\<lambda>a b. scores ! a \<le> scores ! b) (argsort scores)"
    using sorted_argsort [of scores] by (simp add: sorted_map)
  then show ?thesis
    by (simp add: sorted_wrt_rev)
qed

lemma rev_argsort_in_range:
  "length scores \<le> length boxes \<Longrightarrow> list_all (\<lambda>i. i < length boxes) (rev (argsort scores))"
  by (auto simp: list_all_iff set_argsort)

text \<open>On a non-empty pool with as many scores as boxes, the result is read off the kept indices.\<close>

lemma non_max_suppression_kept:
  assumes "boxes \<noteq> []" and "length scores = length boxes"
  shows "\<exists>keep. nms_loop boxes t (rev (argsort scores)) [] = Inr keep \<and>
           non_max_suppression boxes scores t
             = Inr (BoxesScores (map (\<lambda>i. boxes ! i) keep) (map (\<lambda>i. scores ! i) keep)) \<and>
           keep \<noteq> [] \<and> distinct keep \<and> list_all (\<lambda>i. i < length boxes) keep \<and>
           sorted_wrt (\<lambda>a b. scores ! a \<ge> scores ! b) keep \<and>
           sorted_wrt (\<lambda>a b. projr (iou (boxes ! a) (boxes ! b)) < t) keep"
proof -
  let ?si = "rev (argsort scores)"
  have range: "list_all (\<lambda>i. i < length boxes) ?si"
    using assms rev_argsort_in_range [of scores boxes] by simp
  have ne: "?si \<noteq> []"
    using assms length_argsort [of scores] by auto
  obtain ks where ks: "nms_loop boxes t ?si [] = Inr ([] @ ks)"
    "set ks \<subseteq> set ?si" "?si \<noteq> [] \<longrightarrow> ks \<noteq> []" "distinct ?si \<longrightarrow> distinct ks"
    "\<forall>R. sorted_wrt R ?si \<longrightarrow> sorted_wrt R ks"
    "sorted_wrt (\<lambda>a b. projr (iou (boxes ! a) (boxes ! b)) < t) ks"
    using nms_loop_kept [OF range, of t "[]"] by blast
  have in_range: "list_all (\<lambda>i. i < length boxes) ks"
    using ks(2) range by (auto simp: list_all_iff)
  then have in_range': "list_all (\<lambda>i. i < length scores) ks"
    using assms by simp
  have "non_max_suppression boxes scores t
          = Inr (BoxesScores (map (\<lambda>i. boxes ! i) ks) (map (\<lambda>i. scores ! i) ks))"
    using assms(1) ks(1) getitems_in_range [OF in_range] getitems_in_range [OF in_range']
    by (simp add: non_max_suppression_def)
  moreover have "distinct ks"
    using ks(4) distinct_argsort [of scores] by simp
  moreover have "sorted_wrt (\<lambda>a b. scores ! a \<ge> scores ! b) ks"
    using ks(5) rev_argsort_descending [of scores] by blast
  ultimately show ?thesis
    using ks(1,3,6) ne in_range by (intro exI [of _ ks]) simp
qed


text \<open>Pairwise distinct input scores give pairwise distinct kept scores.\<close>

lemma distinct_scores_kept:
  assumes "length scores = length boxes"
    and "non_max_suppression boxes scores t = Inr (BoxesScores bs ss)"
    and "distinct scores"
  shows "distinct ss"
proof -
  have ne: "boxes \<noteq> []"
    using assms(2) by (auto simp: non_max_suppression_def)
  obtain keep where keep: "ss = map (\<lambda>i. scores ! i) keep" "distinct keep"
    "list_all (\<lambda>i. i < length boxes) keep"
    using non_max_suppression_kept [OF ne assms(1), of t] assms(2) by auto
  show ?thesis
    unfolding keep(1) using keep(2,3) assms(1,3)
    by (auto simp: distinct_map inj_on_def list_all_iff nth_eq_iff_index_eq)
qed

text \<open>A pool of two equal scores whose boxes overlap at or above the threshold.\<close>

lemma tied_pair_pool:
  assumes "iou b1 b0 = Inr v" and "t \<le> v"
  shows "non_max_suppression [b0, b1] [s, s] t = Inr (BoxesScores [b1] [s])"
  using assms
  by (simp add: non_max_suppression_def argsort_def getitem_def where_lt_def select_def)

text \<open>
  A round keeps its anchor first; whatever is kept after it comes from the candidates
  that pass the filter, beginning with the first of them.
\<close>

lemma nms_loop_anchor:
  assumes "best < length boxes" and "list_all (\<lambda>i. i < length boxes) rest"
  shows "\<exists>ks. nms_loop boxes t (best # rest) keep = Inr (keep @ best # ks) \<and>
           set ks \<subseteq> set (filter (\<lambda>idx. projr (iou (boxes ! best) (boxes ! idx)) < t) rest)"
proof (cases "rest = []")
  case True
  then show ?thesis by simp
next
  case False
  let ?next = "filter (\<lambda>idx. projr (iou (boxes ! best) (boxes ! idx)) < t) rest"
  have range: "list_all (\<lambda>i. i < length boxes) ?next"
    using assms(2) by (simp add: list_all_iff)
  obtain ks where "nms_loop boxes t ?next (keep @ [best]) = Inr ((keep @ [best]) @ ks)"
    and "set ks \<subseteq> set ?next"
    using nms_loop_kept [OF range, of t "keep @ [best]"] by blast
  then show ?thesis
    using nms_loop_round [OF assms False, of t keep] by simp
qed

lemma nms_loop_first_survivor:
  assumes "best < length boxes" and "list_all (\<lambda>i. i < length boxes) rest"
    and "nms_loop boxes t (best # rest) keep = Inr (keep @ best # ks)"
    and "filter (\<lambda>idx. projr (iou (boxes ! best) (boxes ! idx)) < t) rest = c # cs"
  shows "ks \<noteq> [] \<and> hd ks = c"
proof -
  let ?next = "filter (\<lambda>idx. projr (iou (boxes ! best) (boxes ! idx)) < t) rest"
  have ne: "rest \<noteq> []"
    using assms(4) by auto
  have "c \<in> set ?next" "set cs \<subseteq> set ?next"
    using assms(4) by auto
  then have c: "c < length boxes" and cs: "list_all (\<lambda>i. i < length boxes) cs"
    using assms(2) by (auto simp: list_all_iff)
  obtain ks' where "nms_loop boxes t (c # cs) (keep @ [best]) = Inr ((keep @ [best]) @ c # ks')"
    using nms_loop_anchor [OF c cs, of t "keep @ [best]"] by blast
  then have "nms_loop boxes t (best # rest) keep = Inr (keep @ best # c # ks')"
    using nms_loop_round [OF assms(1,2) ne, of t keep] assms(4) by simp
  with assms(3) show ?thesis by simp
qed

text \<open>
  \<open>iou\<close> does not depend on the order of its arguments, so a relation that holds along
  the kept list holds between any two distinct kept indices.
\<close>

lemma iou_commute: "iou box1 box2 = iou box2 box1"
  by (cases box1; cases box2)
     (simp add: iou_def true_divide_def Let_def max.commute min.commute add.commute)

lemma sorted_wrt_symmetric_pairs:
  assumes "sorted_wrt Q xs" and "\<And>a b. Q a b \<Longrightarrow> Q b a"
    and "a \<in> set xs" and "b \<in> set xs" and "a \<noteq> b"
  shows "Q a b"
  using assms(1,3,4,5)
proof (induction xs)
  case Nil
  then show ?case by simp
next
  case (Cons x xs)
  then show ?case
    using assms(2) by auto
qed

section \<open>Facts about the pipeline\<close>

text \<open>
  The filtered arrays are the projections of the filtered predictions; with no two
  filtered predictions equal in both box and score, the reassembly loop finds every kept
  detection at its own position.
\<close>

lemma pipeline_filtered:
  "pipeline raw st it =
     (case non_max_suppression (map pbox (filter (\<lambda>p. score p \<ge> st) raw))
             (map score (filter (\<lambda>p. score p \<ge> st) raw)) it of
        Inl e \<Rightarrow> Inl e
      | Inr r \<Rightarrow>
          (case unpack2 r of
             Inl e \<Rightarrow> Inl e
           | Inr (final_boxes, final_scores) \<Rightarrow>
               Inr (reassemble (map pbox (filter (\<lambda>p. score p \<ge> st) raw))
                      (map score (filter (\<lambda>p. score p \<ge> st) raw))
                      (map class_id (filter (\<lambda>p. score p \<ge> st) raw))
                      (map class_name (filter (\<lambda>p. score p \<ge> st) raw))
                      (zip final_boxes final_scores))))"
  unfolding pipeline_def Let_def select_map_where_ge by (rule refl)


lemma find_first:
  assumes "k < n" and "P k" and "\<And>j. j < k \<Longrightarrow> \<not> P j"
  shows "find P [0..<n] = Some k"
  unfolding find_Some_iff using assms by (intro exI [of _ k]) simp

lemma find_own_position:
  assumes "distinct (map (\<lambda>p. (pbox p, score p)) F)" and "k < length F"
  shows "find (\<lambda>i. map pbox F ! k = map pbox F ! i \<and> map score F ! k = map score F ! i)
           [0..<length (map pbox F)] = Some k"
proof (rule find_first)
  show "k < length (map pbox F)"
    using assms(2) by simp
  show "map pbox F ! k = map pbox F ! k \<and> map score F ! k = map score F ! k"
    by simp
  fix j
  assume "j < k"
  then have j: "j < length F" and "j \<noteq> k"
    using assms(2) by simp_all
  have "(map (\<lambda>p. (pbox p, score p)) F ! j = map (\<lambda>p. (pbox p, score p)) F ! k) = (j = k)"
    by (rule nth_eq_iff_index_eq) (use assms j in simp_all)
  then have "(pbox (F ! j), score (F ! j)) \<noteq> (pbox (F ! k), score (F ! k))"
    using \<open>j \<noteq> k\<close> j assms(2) by simp
  then show "\<not> (map pbox F ! k = map pbox F ! j \<and> map score F ! k = map score F ! j)"
    using j assms(2) by auto
qed

lemma reassemble_distinct:
  assumes "distinct (map (\<lambda>p. (pbox p, score p)) F)" and "list_all (\<lambda>i. i < length F) ks"
  shows "reassemble (map pbox F) (map score F) (map class_id F) (map class_name F)
           (zip (map (\<lambda>i. map pbox F ! i) ks) (map (\<lambda>i. map score F ! i) ks))
         = map (\<lambda>i. F ! i) ks"
  using assms(2)
proof (induction ks)
  case Nil
  then show ?case by simp
next
  case (Cons k ks)
  then have k: "k < length F" and ks: "list_all (\<lambda>i. i < length F) ks"
    by simp_all
  have "reassemble (map pbox F) (map score F) (map class_id F) (map class_name F)
           (zip (map (\<lambda>i. map pbox F ! i) (k # ks)) (map (\<lambda>i. map score F ! i) (k # ks)))
        = [\<lparr>pbox = map pbox F ! k, score = map score F ! k,
            class_id = map class_id F ! k, class_name = map class_name F ! k\<rparr>]
          @ reassemble (map pbox F) (map score F) (map class_id F) (map class_name F)
              (zip (map (\<lambda>i. map pbox F ! i) ks) (map (\<lambda>i. map score F ! i) ks))"
    by (simp only: list.map zip_Cons_Cons reassemble.simps find_own_position [OF assms(1) k]
        option.case)
  also have "\<dots> = [F ! k] @ map (\<lambda>i. F ! i) ks"
    using Cons.IH [OF ks] k by simp
  finally show ?case by simp
qed

text \<open>
  In general the reassembly loop finds, for a kept detection, the first position whose
  box and score equal its own, and takes the class from there.
\<close>

lemma find_first_match:
  assumes "k < length F"
  shows "find (\<lambda>i. map pbox F ! k = map pbox F ! i \<and> map score F ! k = map score F ! i)
           [0..<length (map pbox F)]
         = Some (LEAST i. pbox (F ! i) = pbox (F ! k) \<and> score (F ! i) = score (F ! k))"
proof (rule find_first)
  let ?Q = "\<lambda>i. pbox (F ! i) = pbox (F ! k) \<and> score (F ! i) = score (F ! k)"
  let ?m = "LEAST i. ?Q i"
  have Qk: "?Q k" by simp
  have Qm: "?Q ?m"
    using Qk by (rule LeastI)
  have le: "?m \<le> k"
    using Qk by (rule Least_le)
  then have m: "?m < length F"
    using assms by simp
  show "?m < length (map pbox F)"
    using m by simp
  show "map pbox F ! k = map pbox F ! ?m \<and> map score F ! k = map score F ! ?m"
    using Qm m assms by simp
  fix j
  assume "j < ?m"
  then have "\<not> ?Q j"
    by (rule not_less_Least)
  moreover have "j < length F"
    using \<open>j < ?m\<close> m by simp
  ultimately show "\<not> (map pbox F ! k = map pbox F ! j \<and> map score F ! k = map score F ! j)"
    using assms by auto
qed

lemma first_match_in_range:
  assumes "k < length F"
  shows "(LEAST i. pbox (F ! i) = pbox (F ! k) \<and> score (F ! i) = score (F ! k)) < length F"
proof -
  have "(LEAST i. pbox (F ! i) = pbox (F ! k) \<and> score (F ! i) = score (F ! k)) \<le> k"
    by (rule Least_le) simp
  then show ?thesis
    using assms by simp
qed

lemma reassemble_first_match:
  assumes "list_all (\<lambda>i. i < length F) ks"
  shows "reassemble (map pbox F) (map score F) (map class_id F) (map class_name F)
           (zip (map (\<lambda>i. map pbox F ! i) ks) (map (\<lambda>i. map score F ! i) ks))
         = map (\<lambda>k. \<lparr>pbox = pbox (F ! k), score = score (F ! k),
                      class_id = class_id (F ! (LEAST i. pbox (F ! i) = pbox (F ! k)
                                                    \<and> score (F ! i) = score (F ! k))),
                      class_name = class_name (F ! (LEAST i. pbox (F ! i) = pbox (F ! k)
                                                    \<and> score (F ! i) = score (F ! k)))\<rparr>) ks"
  using assms
proof (induction ks)
  case Nil
  then show ?case by simp
next
  case (Cons k ks)
  then have k: "k < length F" and ks: "list_all (\<lambda>i. i < length F) ks"
    by simp_all
  let ?m = "LEAST i. pbox (F ! i) = pbox (F ! k) \<and> score (F ! i) = score (F ! k)"
  have m: "?m < length F"
    using k by (rule first_match_in_range)
  have "reassemble (map pbox F) (map score F) (map class_id F) (map class_name F)
           (zip (map (\<lambda>i. map pbox F ! i) (k # ks)) (map (\<lambda>i. map score F ! i) (k # ks)))
        = [\<lparr>pbox = map pbox F ! k, score = map score F ! k,
            class_id = map class_id F ! ?m, class_name = map class_name F ! ?m\<rparr>]
          @ reassemble (map pbox F) (map score F) (map class_id F) (map class_name F)
              (zip (map (\<lambda>i. map pbox F ! i) ks) (map (\<lambda>i. map score F ! i) ks))"
    by (simp only: list.map zip_Cons_Cons reassemble.simps find_first_match [OF k] option.case)
  also have "\<dots> = [\<lparr>pbox = pbox (F ! k), score = score (F ! k),
                      class_id = class_id (F ! ?m), class_name = class_name (F ! ?m)\<rparr>]
          @ map (\<lambda>k. \<lparr>pbox = pbox (F ! k), score = score (F ! k),
                      class_id = class_id (F ! (LEAST i. pbox (F ! i) = pbox (F ! k)
                                                    \<and> score (F ! i) = score (F ! k))),
                      class_name = class_name (F ! (LEAST i. pbox (F ! i) = pbox (F ! k)
                                                    \<and> score (F ! i) = score (F ! k)))\<rparr>) ks"
    using Cons.IH [OF ks] k m by simp
  finally show ?case by simp
qed

text \<open>Whenever the score filter leaves nothing, the unpacking in \<open>main\<close> raises.\<close>

lemma pipeline_empty_pool:
  "filter (\<lambda>p. score p \<ge> st) raw = [] \<Longrightarrow> pipeline raw st it = Inl ValueError"
  by (simp add: pipeline_filtered non_max_suppression_def unpack2_def)

text \<open>The run of \<open>main\<close> on its sample data: four predictions remain.\<close>

lemma main_filtered:
  "filter (\<lambda>p. score p \<ge> 1 / 2) raw_predictions =
     [\<lparr>pbox = (55, 55, 145, 195), score = 95/100, class_id = 0, class_name = ''nguoi''\<rparr>,
      \<lparr>pbox = (60, 60, 160, 210), score = 88/100, class_id = 0, class_name = ''nguoi''\<rparr>,
      \<lparr>pbox = (205, 105, 295, 245), score = 92/100, class_id = 0, class_name = ''nguoi''\<rparr>,
      \<lparr>pbox = (200, 100, 300, 250), score = 70/100, class_id = 0, class_name = ''nguoi''\<rparr>,
      \<lparr>pbox = (405, 205, 545, 395), score = 90/100, class_id = 1, class_name = ''xe''\<rparr>,
      \<lparr>pbox = (410, 210, 560, 410), score = 65/100, class_id = 1, class_name = ''xe''\<rparr>,
      \<lparr>pbox = (500, 10, 550, 60), score = 80/100, class_id = 0, class_name = ''nguoi''\<rparr>]"
  by (simp add: raw_predictions_def)

lemma main_output:
  "main =
     Inr [\<lparr>pbox = (55, 55, 145, 195), score = 95 / 100, class_id = 0, class_name = ''nguoi''\<rparr>,
          \<lparr>pbox = (205, 105, 295, 245), score = 92 / 100, class_id = 0, class_name = ''nguoi''\<rparr>,
          \<lparr>pbox = (405, 205, 545, 395), score = 90 / 100, class_id = 1, class_name = ''xe''\<rparr>,
          \<lparr>pbox = (500, 10, 550, 60), score = 80 / 100, class_id = 0, class_name = ''nguoi''\<rparr>]"
proof -
  have nms: "non_max_suppression
      [(55, 55, 145, 195), (60, 60, 160, 210), (205, 105, 295, 245), (200, 100, 300, 250),
       (405, 205, 545, 395), (410, 210, 560, 410), (500, 10, 550, 60)]
      [95 / 100, 88 / 100, 92 / 100, 70 / 100, 90 / 100, 65 / 100, 80 / 100] (1 / 2)
    = Inr (BoxesScores
        [(55, 55, 145, 195), (205, 105, 295, 245), (405, 205, 545, 395), (500, 10, 550, 60)]
        [95 / 100, 92 / 100, 90 / 100, 80 / 100])"
    by (simp add: non_max_suppression_def argsort_def getitem_def iou_def true_divide_def
        where_lt_def select_def)
  show ?thesis
    unfolding main_def pipeline_filtered main_filtered list.map prediction.select_convs nms
    by (simp add: unpack2_def)
qed

section \<open>Geometry\<close>

text \<open>
  Claim C8. \<open>iou\<close> is symmetric: exchanging the two boxes gives the same result.
\<close>

theorem iou_symmetric: "iou box1 box2 = iou box2 box1"
  by (cases box1; cases box2)
     (simp add: iou_def true_divide_def Let_def max.commute min.commute add.commute)

text \<open>
  Claim C6. When the union area (the two box areas minus the intersection area) is
  exactly 0, \<open>iou\<close> returns 0; and the division of \<open>iou\<close> never fails on a zero divisor,
  whatever the boxes.
\<close>

theorem iou_zero_union_guarded:
  "((a2 - a0) * (a3 - a1) + (b2 - b0) * (b3 - b1)
      - max 0 (min a2 b2 - max a0 b0) * max 0 (min a3 b3 - max a1 b1) = 0
    \<longrightarrow> iou (a0, a1, a2, a3) (b0, b1, b2, b3) = Inr 0)
   \<and> iou (a0, a1, a2, a3) (b0, b1, b2, b3) \<noteq> Inl ZeroDivisionError"
  by (simp add: iou_def true_divide_def Let_def)

theorem iou_zero_union_guarded_witness:
  "(1 - 1) * (1 - 1) + (5 - 5) * (7 - 7)
      - max 0 (min 1 5 - max 1 5) * max 0 (min 1 7 - max 1 7) = (0::rat)
   \<and> iou (1, 1, 1, 1) (5, 7, 5, 7) = Inr 0
   \<and> iou (1, 1, 1, 1) (5, 7, 5, 7) \<noteq> Inl ZeroDivisionError"
  using iou_zero_union_guarded [of 1 1 1 1 5 5 7 7] by simp

section \<open>Score filter\<close>

text \<open>
  Claim C5. The score filter of \<open>main\<close> keeps exactly the predictions whose score is
  greater than or equal to the threshold (equality included), in their input order: the
  four filtered arrays are the projections of that sublist of \<open>raw_predictions\<close>, and
  they are what the pipeline hands to \<open>non_max_suppression\<close> and to the reassembly loop.
\<close>

theorem score_filter_inclusive_order_preserving:
  "select (map pbox raw) (where_ge (map score raw) st)
     = map pbox (filter (\<lambda>p. score p \<ge> st) raw) \<and>
   select (map score raw) (where_ge (map score raw) st)
     = map score (filter (\<lambda>p. score p \<ge> st) raw) \<and>
   select (map class_id raw) (where_ge (map score raw) st)
     = map class_id (filter (\<lambda>p. score p \<ge> st) raw) \<and>
   select (map class_name raw) (where_ge (map score raw) st)
     = map class_name (filter (\<lambda>p. score p \<ge> st) raw) \<and>
   pipeline raw st it =
     (case non_max_suppression (map pbox (filter (\<lambda>p. score p \<ge> st) raw))
             (map score (filter (\<lambda>p. score p \<ge> st) raw)) it of
        Inl e \<Rightarrow> Inl e
      | Inr r \<Rightarrow>
          (case unpack2 r of
             Inl e \<Rightarrow> Inl e
           | Inr (final_boxes, final_scores) \<Rightarrow>
               Inr (reassemble (map pbox (filter (\<lambda>p. score p \<ge> st) raw))
                      (map score (filter (\<lambda>p. score p \<ge> st) raw))
                      (map class_id (filter (\<lambda>p. score p \<ge> st) raw))
                      (map class_name (filter (\<lambda>p. score p \<ge> st) raw))
                      (zip final_boxes final_scores))))"
  using pipeline_filtered [of raw st it] by (simp only: select_map_where_ge simp_thms)

section \<open>Greedy suppression\<close>

text \<open>
  Claim C4. In a round of \<open>non_max_suppression\<close> with candidates left, the anchor is
  kept, and the candidates of the next round are exactly those whose IoU with the anchor
  is strictly less than the threshold, in their order. The loop returns the anchor
  followed by indices drawn from those survivors only, the first survivor first; a
  candidate whose IoU with the anchor equals or exceeds the threshold is not returned
  after it. In the pair that \<open>non_max_suppression\<close> returns, every detection has an IoU
  strictly below the threshold with each detection returned before it.
\<close>

theorem nms_round_strictly_below_threshold:
  assumes "best < length boxes" and "list_all (\<lambda>i. i < length boxes) rest" and "rest \<noteq> []"
    and "length scores = length boxes"
  shows "\<exists>ious ks.
           ious_of boxes best rest = Inr ious \<and>
           select rest (where_lt ious t)
             = filter (\<lambda>idx. \<exists>v. iou (boxes ! best) (boxes ! idx) = Inr v \<and> v < t) rest \<and>
           nms_loop boxes t (best # rest) keep = Inr (keep @ best # ks) \<and>
           nms_loop boxes t (select rest (where_lt ious t)) (keep @ [best])
             = Inr (keep @ best # ks) \<and>
           set ks \<subseteq> set (select rest (where_lt ious t)) \<and>
           (select rest (where_lt ious t) \<noteq> []
              \<longrightarrow> ks \<noteq> [] \<and> hd ks = hd (select rest (where_lt ious t))) \<and>
           (\<forall>idx v. iou (boxes ! best) (boxes ! idx) = Inr v \<and> t \<le> v \<longrightarrow> idx \<notin> set ks) \<and>
           (\<exists>kept. nms_loop boxes t (rev (argsort scores)) [] = Inr kept \<and>
              non_max_suppression boxes scores t
                = Inr (BoxesScores (map (\<lambda>i. boxes ! i) kept) (map (\<lambda>i. scores ! i) kept)) \<and>
              sorted_wrt (\<lambda>a b. \<exists>v. iou (boxes ! a) (boxes ! b) = Inr v \<and> v < t) kept)"
proof -
  let ?ious = "map (\<lambda>idx. projr (iou (boxes ! best) (boxes ! idx))) rest"
  let ?next = "select rest (where_lt ?ious t)"
  have ious: "ious_of boxes best rest = Inr ?ious"
    using assms(1,2) by (rule ious_of_in_range)
  have next_projr: "?next = filter (\<lambda>idx. projr (iou (boxes ! best) (boxes ! idx)) < t) rest"
    by (rule select_where_lt_map)
  have sel: "?next = filter (\<lambda>idx. \<exists>v. iou (boxes ! best) (boxes ! idx) = Inr v \<and> v < t) rest"
    by (simp only: select_where_lt_map iou_below_iff)
  obtain ks where res: "nms_loop boxes t (best # rest) keep = Inr (keep @ best # ks)"
    and sub: "set ks \<subseteq> set ?next"
    using nms_loop_anchor [OF assms(1,2), of t keep] unfolding next_projr by blast
  have step: "nms_loop boxes t ?next (keep @ [best]) = Inr (keep @ best # ks)"
    using nms_loop_round [OF assms(1,2,3), of t keep] res unfolding next_projr by simp
  have first: "ks \<noteq> [] \<and> hd ks = hd ?next" if "?next \<noteq> []"
  proof -
    from that obtain c cs where "?next = c # cs"
      by (cases ?next) auto
    then show ?thesis
      using nms_loop_first_survivor [OF assms(1,2) res, of c cs] unfolding next_projr by simp
  qed
  have boundary: "idx \<notin> set ks" if "iou (boxes ! best) (boxes ! idx) = Inr v" and "t \<le> v" for idx v
  proof
    assume "idx \<in> set ks"
    with sub have "idx \<in> set ?next" by blast
    then have "projr (iou (boxes ! best) (boxes ! idx)) < t"
      unfolding next_projr by simp
    with that show False by simp
  qed
  have ne: "boxes \<noteq> []"
    using assms(1) by auto
  obtain kept where kept: "nms_loop boxes t (rev (argsort scores)) [] = Inr kept"
    "non_max_suppression boxes scores t
       = Inr (BoxesScores (map (\<lambda>i. boxes ! i) kept) (map (\<lambda>i. scores ! i) kept))"
    "sorted_wrt (\<lambda>a b. projr (iou (boxes ! a) (boxes ! b)) < t) kept"
    using non_max_suppression_kept [OF ne assms(4), of t] by blast
  have "sorted_wrt (\<lambda>a b. \<exists>v. iou (boxes ! a) (boxes ! b) = Inr v \<and> v < t) kept"
    using kept(3) by (simp only: iou_below_iff)
  with kept(1,2) have whole: "\<exists>kept. nms_loop boxes t (rev (argsort scores)) [] = Inr kept \<and>
      non_max_suppression boxes scores t
        = Inr (BoxesScores (map (\<lambda>i. boxes ! i) kept) (map (\<lambda>i. scores ! i) kept)) \<and>
      sorted_wrt (\<lambda>a b. \<exists>v. iou (boxes ! a) (boxes ! b) = Inr v \<and> v < t) kept"
    by blast
  show ?thesis
    using ious sel res step sub first boundary whole
    by (intro exI [of _ ?ious] exI [of _ ks]) blast
qed

theorem nms_round_strictly_below_threshold_witness:
  "iou (0, 0, 2, 2) (0, 0, 2, 1) = Inr (1 / 2) \<and>
   iou (0, 0, 2, 2) (0, 0, 1, 1) = Inr (1 / 4) \<and>
   (\<exists>ious. ious_of [(0, 0, 2, 2), (0, 0, 2, 1), (0, 0, 1, 1)] 0 [1, 2] = Inr ious \<and>
      select [1, 2 :: nat] (where_lt ious (1 / 2)) = [2]) \<and>
   nms_loop [(0, 0, 2, 2), (0, 0, 2, 1), (0, 0, 1, 1)] (1 / 2) (0 # [1, 2]) [] = Inr ([] @ 0 # [2]) \<and>
   (1 :: nat) \<notin> set [2] \<and>
   non_max_suppression [(0, 0, 2, 2), (0, 0, 2, 1), (0, 0, 1, 1)] [9 / 10, 8 / 10, 7 / 10] (1 / 2)
     = Inr (BoxesScores [(0, 0, 2, 2), (0, 0, 1, 1)] [9 / 10, 7 / 10])"
proof -
  let ?boxes = "[(0, 0, 2, 2), (0, 0, 2, 1), (0, 0, 1, 1)] :: box list"
  let ?rest = "[1, 2] :: nat list"
  let ?scores = "[9 / 10, 8 / 10, 7 / 10] :: rat list"
  have h1: "0 < length ?boxes" by simp
  have h2: "list_all (\<lambda>i. i < length ?boxes) ?rest" by simp
  have h3: "?rest \<noteq> []" by simp
  have h4: "length ?scores = length ?boxes" by simp
  have e1: "iou (0, 0, 2, 2) (0, 0, 2, 1) = Inr (1 / 2)"
    by (simp add: iou_def true_divide_def)
  have e2: "iou (0, 0, 2, 2) (0, 0, 1, 1) = Inr (1 / 4)"
    by (simp add: iou_def true_divide_def)
  have "filter (\<lambda>idx. \<exists>v. iou (?boxes ! 0) (?boxes ! idx) = Inr v \<and> v < 1 / 2) ?rest
          = filter (\<lambda>idx. projr (iou (?boxes ! 0) (?boxes ! idx)) < 1 / 2) ?rest"
    by (simp only: iou_below_iff)
  also have "\<dots> = [2]"
    using e1 e2 by simp
  finally have f:
    "filter (\<lambda>idx. \<exists>v. iou (?boxes ! 0) (?boxes ! idx) = Inr v \<and> v < 1 / 2) ?rest = [2]" .
  have order: "rev (argsort ?scores) = [0, 1, 2]"
    by (simp add: argsort_def)
  from nms_round_strictly_below_threshold [OF h1 h2 h3 h4, of "1 / 2" "[]"]
  obtain ious ks kept where a: "ious_of ?boxes 0 ?rest = Inr ious"
    and c: "select ?rest (where_lt ious (1 / 2))
         = filter (\<lambda>idx. \<exists>v. iou (?boxes ! 0) (?boxes ! idx) = Inr v \<and> v < 1 / 2) ?rest"
    and r: "nms_loop ?boxes (1 / 2) (0 # ?rest) [] = Inr ([] @ 0 # ks)"
    and k: "nms_loop ?boxes (1 / 2) (rev (argsort ?scores)) [] = Inr kept"
    and n: "non_max_suppression ?boxes ?scores (1 / 2)
              = Inr (BoxesScores (map (\<lambda>i. ?boxes ! i) kept) (map (\<lambda>i. ?scores ! i) kept))"
    by blast
  from c f have c': "select ?rest (where_lt ious (1 / 2)) = [2]"
    by (simp only:)
  have run: "nms_loop ?boxes (1 / 2) (0 # ?rest) [] = Inr [0, 2]"
    by (simp add: getitem_def iou_def true_divide_def where_lt_def select_def)
  with r have ks: "ks = [2]"
    by simp
  from k r have "kept = [0, 2]"
    unfolding order ks by simp
  with n have n': "non_max_suppression ?boxes ?scores (1 / 2)
     = Inr (BoxesScores [(0, 0, 2, 2), (0, 0, 1, 1)] [9 / 10, 7 / 10])"
    by simp
  have d: "(1 :: nat) \<notin> set [2]" by simp
  from a c' have ac: "\<exists>ious. ious_of ?boxes 0 ?rest = Inr ious \<and>
      select ?rest (where_lt ious (1 / 2)) = [2]"
    by blast
  show ?thesis
    using e1 e2 ac r [unfolded ks] d n' by (simp only: simp_thms)
qed

text \<open>
  Claim C10. On a non-empty pool with one score per box, \<open>non_max_suppression\<close> returns
  two lists of equal length read at the same kept indices: the i-th box and the i-th
  score both come from the i-th kept index. The kept indices are pairwise distinct and
  in range.
\<close>

theorem nms_result_paired_distinct:
  assumes "boxes \<noteq> []" and "length scores = length boxes"
  shows "\<exists>keep. nms_loop boxes t (rev (argsort scores)) [] = Inr keep \<and>
           non_max_suppression boxes scores t
             = Inr (BoxesScores (map (\<lambda>i. boxes ! i) keep) (map (\<lambda>i. scores ! i) keep)) \<and>
           length (map (\<lambda>i. boxes ! i) keep) = length (map (\<lambda>i. scores ! i) keep) \<and>
           distinct keep \<and> list_all (\<lambda>i. i < length boxes) keep"
  using non_max_suppression_kept [OF assms, of t] by auto

theorem nms_result_paired_distinct_witness:
  "[(55, 55, 145, 195), (60, 60, 160, 210), (205, 105, 295, 245)] \<noteq> ([] :: box list) \<and>
   length [95 / 100, 88 / 100, 92 / 100 :: rat]
     = length [(55, 55, 145, 195), (60, 60, 160, 210), (205, 105, 295, 245) :: box] \<and>
   nms_loop [(55, 55, 145, 195), (60, 60, 160, 210), (205, 105, 295, 245)] (1 / 2)
     (rev (argsort [95 / 100, 88 / 100, 92 / 100])) [] = Inr [0, 2] \<and>
   non_max_suppression [(55, 55, 145, 195), (60, 60, 160, 210), (205, 105, 295, 245)]
     [95 / 100, 88 / 100, 92 / 100] (1 / 2)
     = Inr (BoxesScores [(55, 55, 145, 195), (205, 105, 295, 245)] [95 / 100, 92 / 100]) \<and>
   distinct [0, 2 :: nat]"
proof -
  let ?boxes = "[(55, 55, 145, 195), (60, 60, 160, 210), (205, 105, 295, 245)] :: box list"
  let ?scores = "[95 / 100, 88 / 100, 92 / 100] :: rat list"
  have h1: "?boxes \<noteq> []" by simp
  have h2: "length ?scores = length ?boxes" by simp
  have k: "nms_loop ?boxes (1 / 2) (rev (argsort ?scores)) [] = Inr [0, 2]"
    by (simp add: argsort_def getitem_def iou_def true_divide_def where_lt_def select_def)
  show ?thesis
    using nms_result_paired_distinct [OF h1 h2, of "1 / 2"] k by auto
qed

text \<open>
  Claim C2, as stated, fails: on two equal scores the program visits index 1 before
  index 0, where the stable descending sort of the specification visits 0 before 1; the
  two boxes overlap above the threshold and the later-input one is the one kept.
\<close>

theorem tie_order_not_stable_descending:
  "spec_stable_descending_order [9 / 10, 9 / 10] = [0, 1] \<and>
   rev (argsort [9 / 10, 9 / 10]) = [1, 0] \<and>
   iou (0, 0, 10, 10) (1, 1, 11, 11) = Inr (81 / 119) \<and>
   iou (1, 1, 11, 11) (0, 0, 10, 10) = Inr (81 / 119) \<and>
   (1 / 2 :: rat) \<le> 81 / 119 \<and>
   non_max_suppression [(0, 0, 10, 10), (1, 1, 11, 11)] [9 / 10, 9 / 10] (1 / 2)
     = Inr (BoxesScores [(1, 1, 11, 11)] [9 / 10])"
  by (simp add: spec_stable_descending_order_def non_max_suppression_def argsort_def getitem_def
      iou_def true_divide_def where_lt_def select_def)

text \<open>
  Claim C2, amended. The processing order \<open>rev (argsort scores)\<close> visits every index
  once, in non-increasing order of score; it is not the stable descending order. Two
  detections whose IoU reaches the threshold are never both kept, whichever is visited
  first; and in a pool of exactly two detections with equal scores whose IoU reaches the
  threshold, the later-input one is the one kept.
\<close>

theorem processing_order_descending_ties_unordered:
  assumes "boxes \<noteq> []" and "length scores = length boxes"
  shows "set (rev (argsort scores)) = {..<length scores} \<and>
         distinct (rev (argsort scores)) \<and>
         sorted_wrt (\<lambda>a b. scores ! a \<ge> scores ! b) (rev (argsort scores)) \<and>
         (\<exists>keep. nms_loop boxes t (rev (argsort scores)) [] = Inr keep \<and>
            non_max_suppression boxes scores t
              = Inr (BoxesScores (map (\<lambda>i. boxes ! i) keep) (map (\<lambda>i. scores ! i) keep)) \<and>
            (\<forall>i j v. i \<in> set keep \<and> j \<in> set keep \<and> i \<noteq> j \<and>
                     iou (boxes ! i) (boxes ! j) = Inr v \<longrightarrow> v < t)) \<and>
         (\<forall>b0 b1 s v. iou b1 b0 = Inr v \<and> t \<le> v
            \<longrightarrow> non_max_suppression [b0, b1] [s, s] t = Inr (BoxesScores [b1] [s]))"
proof -
  let ?Q = "\<lambda>a b. projr (iou (boxes ! a) (boxes ! b)) < t"
  obtain keep where keep: "nms_loop boxes t (rev (argsort scores)) [] = Inr keep"
    "non_max_suppression boxes scores t
       = Inr (BoxesScores (map (\<lambda>i. boxes ! i) keep) (map (\<lambda>i. scores ! i) keep))"
    "sorted_wrt ?Q keep"
    using non_max_suppression_kept [OF assms, of t] by blast
  have sym: "?Q b a" if "?Q a b" for a b
    using that iou_commute [of "boxes ! a" "boxes ! b"] by simp
  have pairs: "v < t"
    if "i \<in> set keep" and "j \<in> set keep" and "i \<noteq> j" and "iou (boxes ! i) (boxes ! j) = Inr v"
    for i j v
  proof -
    have "?Q i j"
      using keep(3) sym that(1,2,3) by (rule sorted_wrt_symmetric_pairs)
    with that(4) show ?thesis by simp
  qed
  have "set (rev (argsort scores)) = {..<length scores}"
    by (simp add: set_argsort)
  moreover have "distinct (rev (argsort scores))"
    by (simp add: distinct_argsort)
  moreover have "sorted_wrt (\<lambda>a b. scores ! a \<ge> scores ! b) (rev (argsort scores))"
    by (rule rev_argsort_descending)
  moreover have "\<exists>keep. nms_loop boxes t (rev (argsort scores)) [] = Inr keep \<and>
            non_max_suppression boxes scores t
              = Inr (BoxesScores (map (\<lambda>i. boxes ! i) keep) (map (\<lambda>i. scores ! i) keep)) \<and>
            (\<forall>i j v. i \<in> set keep \<and> j \<in> set keep \<and> i \<noteq> j \<and>
                     iou (boxes ! i) (boxes ! j) = Inr v \<longrightarrow> v < t)"
    using keep(1,2) pairs by blast
  moreover have "\<forall>b0 b1 s v. iou b1 b0 = Inr v \<and> t \<le> v
            \<longrightarrow> non_max_suppression [b0, b1] [s, s] t = Inr (BoxesScores [b1] [s])"
    using tied_pair_pool [of _ _ _ t] by blast
  ultimately show ?thesis
    by (simp only: simp_thms)
qed

theorem processing_order_descending_ties_unordered_witness:
  "set (rev (argsort [9 / 10, 9 / 10])) = {..<length [9 / 10, 9 / 10 :: rat]} \<and>
   distinct (rev (argsort [9 / 10, 9 / 10])) \<and>
   sorted_wrt (\<lambda>a b. [9 / 10, 9 / 10 :: rat] ! a \<ge> [9 / 10, 9 / 10] ! b)
     (rev (argsort [9 / 10, 9 / 10])) \<and>
   iou (1, 1, 11, 11) (0, 0, 10, 10) = Inr (81 / 119) \<and> (1 / 2 :: rat) \<le> 81 / 119 \<and>
   non_max_suppression [(0, 0, 10, 10), (1, 1, 11, 11)] [9 / 10, 9 / 10] (1 / 2)
     = Inr (BoxesScores [(1, 1, 11, 11)] [9 / 10])"
proof -
  let ?boxes = "[(0, 0, 10, 10), (1, 1, 11, 11)] :: box list"
  let ?scores = "[9 / 10, 9 / 10] :: rat list"
  have h1: "?boxes \<noteq> []" by simp
  have h2: "length ?scores = length ?boxes" by simp
  have e: "iou (1, 1, 11, 11) (0, 0, 10, 10) = Inr (81 / 119)"
    by (simp add: iou_def true_divide_def)
  have le: "(1 / 2 :: rat) \<le> 81 / 119" by simp
  from processing_order_descending_ties_unordered [OF h1 h2, of "1 / 2"]
  have a: "set (rev (argsort ?scores)) = {..<length ?scores}"
    and b: "distinct (rev (argsort ?scores))"
    and c: "sorted_wrt (\<lambda>a b. ?scores ! a \<ge> ?scores ! b) (rev (argsort ?scores))"
    and d: "\<forall>b0 b1 s v. iou b1 b0 = Inr v \<and> 1 / 2 \<le> v
            \<longrightarrow> non_max_suppression [b0, b1] [s, s] (1 / 2) = Inr (BoxesScores [b1] [s])"
    by blast+
  from d e le have "non_max_suppression ?boxes ?scores (1 / 2)
     = Inr (BoxesScores [(1, 1, 11, 11)] [9 / 10])"
    by blast
  with a b c e le show ?thesis
    by (simp only: simp_thms)
qed




section \<open>Class metadata\<close>

text \<open>
  Claim C3, as stated, fails. Two filtered predictions with the same box and score and
  different classes: the kept index is 1 (class 1, \<open>xe\<close>), and the final prediction
  carries class 0, \<open>nguoi\<close>, of the first position with an equal box and score. With two
  zero-area boxes both predictions are kept and both final predictions carry the class
  of the first.
\<close>

theorem pipeline_class_metadata_rematched_by_value:
  "nms_loop [(0, 0, 10, 10), (0, 0, 10, 10)] (1 / 2) (rev (argsort [9 / 10, 9 / 10])) [] = Inr [1] \<and>
   pipeline
     [\<lparr>pbox = (0, 0, 10, 10), score = 9 / 10, class_id = 0, class_name = ''nguoi''\<rparr>,
      \<lparr>pbox = (0, 0, 10, 10), score = 9 / 10, class_id = 1, class_name = ''xe''\<rparr>]
     (1 / 2) (1 / 2)
   = Inr [\<lparr>pbox = (0, 0, 10, 10), score = 9 / 10, class_id = 0, class_name = ''nguoi''\<rparr>] \<and>
   pipeline
     [\<lparr>pbox = (3, 3, 3, 3), score = 9 / 10, class_id = 0, class_name = ''nguoi''\<rparr>,
      \<lparr>pbox = (3, 3, 3, 3), score = 9 / 10, class_id = 1, class_name = ''xe''\<rparr>]
     (1 / 2) (1 / 2)
   = Inr [\<lparr>pbox = (3, 3, 3, 3), score = 9 / 10, class_id = 0, class_name = ''nguoi''\<rparr>,
          \<lparr>pbox = (3, 3, 3, 3), score = 9 / 10, class_id = 0, class_name = ''nguoi''\<rparr>]"
proof -
  have kept: "nms_loop [(0, 0, 10, 10), (0, 0, 10, 10)] (1 / 2) (rev (argsort [9 / 10, 9 / 10])) []
              = Inr [1]"
    by (simp add: argsort_def getitem_def iou_def true_divide_def where_lt_def select_def)
  have nms1: "non_max_suppression [(0, 0, 10, 10), (0, 0, 10, 10)] [9 / 10, 9 / 10] (1 / 2)
              = Inr (BoxesScores [(0, 0, 10, 10)] [9 / 10])"
    by (simp add: non_max_suppression_def argsort_def getitem_def iou_def true_divide_def
        where_lt_def select_def)
  have nms2: "non_max_suppression [(3, 3, 3, 3), (3, 3, 3, 3)] [9 / 10, 9 / 10] (1 / 2)
              = Inr (BoxesScores [(3, 3, 3, 3), (3, 3, 3, 3)] [9 / 10, 9 / 10])"
    by (simp add: non_max_suppression_def argsort_def getitem_def iou_def true_divide_def
        where_lt_def select_def)
  have p1: "pipeline
     [\<lparr>pbox = (0, 0, 10, 10), score = 9 / 10, class_id = 0, class_name = ''nguoi''\<rparr>,
      \<lparr>pbox = (0, 0, 10, 10), score = 9 / 10, class_id = 1, class_name = ''xe''\<rparr>]
     (1 / 2) (1 / 2)
   = Inr [\<lparr>pbox = (0, 0, 10, 10), score = 9 / 10, class_id = 0, class_name = ''nguoi''\<rparr>]"
    by (simp add: pipeline_filtered nms1 unpack2_def)
  have p2: "pipeline
     [\<lparr>pbox = (3, 3, 3, 3), score = 9 / 10, class_id = 0, class_name = ''nguoi''\<rparr>,
      \<lparr>pbox = (3, 3, 3, 3), score = 9 / 10, class_id = 1, class_name = ''xe''\<rparr>]
     (1 / 2) (1 / 2)
   = Inr [\<lparr>pbox = (3, 3, 3, 3), score = 9 / 10, class_id = 0, class_name = ''nguoi''\<rparr>,
          \<lparr>pbox = (3, 3, 3, 3), score = 9 / 10, class_id = 0, class_name = ''nguoi''\<rparr>]"
    by (simp add: pipeline_filtered nms2 unpack2_def)
  from kept p1 p2 show ?thesis by (simp only: simp_thms)
qed

text \<open>
  Claim C3, amended. Every final prediction carries the box and score of the kept
  filtered detection it comes from and the class_id and class_name of the first
  filtered detection whose box and score equal that detection's. When no two filtered
  detections share both box and score, every final prediction is therefore the filtered
  input prediction at its kept index, unchanged.
\<close>

theorem pipeline_class_metadata_first_match:
  assumes "filter (\<lambda>p. score p \<ge> st) raw \<noteq> []"
  shows "\<exists>keep. nms_loop (map pbox (filter (\<lambda>p. score p \<ge> st) raw)) it
                  (rev (argsort (map score (filter (\<lambda>p. score p \<ge> st) raw)))) [] = Inr keep \<and>
           list_all (\<lambda>i. i < length (filter (\<lambda>p. score p \<ge> st) raw)) keep \<and>
           pipeline raw st it
             = Inr (map (\<lambda>k.
                 \<lparr>pbox = pbox (filter (\<lambda>p. score p \<ge> st) raw ! k),
                  score = score (filter (\<lambda>p. score p \<ge> st) raw ! k),
                  class_id = class_id (filter (\<lambda>p. score p \<ge> st) raw !
                    (LEAST i. pbox (filter (\<lambda>p. score p \<ge> st) raw ! i)
                                = pbox (filter (\<lambda>p. score p \<ge> st) raw ! k) \<and>
                              score (filter (\<lambda>p. score p \<ge> st) raw ! i)
                                = score (filter (\<lambda>p. score p \<ge> st) raw ! k))),
                  class_name = class_name (filter (\<lambda>p. score p \<ge> st) raw !
                    (LEAST i. pbox (filter (\<lambda>p. score p \<ge> st) raw ! i)
                                = pbox (filter (\<lambda>p. score p \<ge> st) raw ! k) \<and>
                              score (filter (\<lambda>p. score p \<ge> st) raw ! i)
                                = score (filter (\<lambda>p. score p \<ge> st) raw ! k)))\<rparr>) keep) \<and>
           (distinct (map (\<lambda>p. (pbox p, score p)) (filter (\<lambda>p. score p \<ge> st) raw))
              \<longrightarrow> pipeline raw st it
                    = Inr (map (\<lambda>k. filter (\<lambda>p. score p \<ge> st) raw ! k) keep))"
proof -
  let ?F = "filter (\<lambda>p. score p \<ge> st) raw"
  have ne: "map pbox ?F \<noteq> []" and len: "length (map score ?F) = length (map pbox ?F)"
    using assms(1) by simp_all
  obtain keep where keep: "nms_loop (map pbox ?F) it (rev (argsort (map score ?F))) [] = Inr keep"
    "non_max_suppression (map pbox ?F) (map score ?F) it
       = Inr (BoxesScores (map (\<lambda>i. map pbox ?F ! i) keep) (map (\<lambda>i. map score ?F ! i) keep))"
    "list_all (\<lambda>i. i < length (map pbox ?F)) keep"
    using non_max_suppression_kept [OF ne len, of it] by blast
  from keep(3) have range: "list_all (\<lambda>i. i < length ?F) keep"
    by simp
  have general: "pipeline raw st it
      = Inr (map (\<lambda>k. \<lparr>pbox = pbox (?F ! k), score = score (?F ! k),
                 class_id = class_id (?F ! (LEAST i. pbox (?F ! i) = pbox (?F ! k)
                                               \<and> score (?F ! i) = score (?F ! k))),
                 class_name = class_name (?F ! (LEAST i. pbox (?F ! i) = pbox (?F ! k)
                                               \<and> score (?F ! i) = score (?F ! k)))\<rparr>) keep)"
    unfolding pipeline_filtered keep(2)
    using reassemble_first_match [OF range] by (simp add: unpack2_def)
  have unambiguous: "pipeline raw st it = Inr (map (\<lambda>k. ?F ! k) keep)"
    if "distinct (map (\<lambda>p. (pbox p, score p)) ?F)"
    unfolding pipeline_filtered keep(2)
    using reassemble_distinct [OF that range] by (simp add: unpack2_def)
  from keep(1) range general unambiguous show ?thesis
    by blast
qed

theorem pipeline_class_metadata_first_match_witness:
  "pipeline
     [\<lparr>pbox = (55, 55, 145, 195), score = 95 / 100, class_id = 0, class_name = ''nguoi''\<rparr>,
      \<lparr>pbox = (10, 10, 30, 30), score = 30 / 100, class_id = 0, class_name = ''nguoi''\<rparr>,
      \<lparr>pbox = (405, 205, 545, 395), score = 90 / 100, class_id = 1, class_name = ''xe''\<rparr>]
     (1 / 2) (1 / 2)
   = Inr [\<lparr>pbox = (55, 55, 145, 195), score = 95 / 100, class_id = 0, class_name = ''nguoi''\<rparr>,
          \<lparr>pbox = (405, 205, 545, 395), score = 90 / 100, class_id = 1, class_name = ''xe''\<rparr>] \<and>
   pipeline
     [\<lparr>pbox = (0, 0, 10, 10), score = 9 / 10, class_id = 0, class_name = ''nguoi''\<rparr>,
      \<lparr>pbox = (0, 0, 10, 10), score = 9 / 10, class_id = 1, class_name = ''xe''\<rparr>]
     (1 / 2) (1 / 2)
   = Inr [\<lparr>pbox = (0, 0, 10, 10), score = 9 / 10, class_id = 0, class_name = ''nguoi''\<rparr>]"
proof -
  let ?a = "\<lparr>pbox = (55, 55, 145, 195), score = 95 / 100, class_id = 0, class_name = ''nguoi''\<rparr>"
  let ?b = "\<lparr>pbox = (10, 10, 30, 30), score = 30 / 100, class_id = 0, class_name = ''nguoi''\<rparr>"
  let ?c = "\<lparr>pbox = (405, 205, 545, 395), score = 90 / 100, class_id = 1, class_name = ''xe''\<rparr>"
  have f: "filter (\<lambda>p. score p \<ge> 1 / 2) [?a, ?b, ?c] = [?a, ?c]"
    by simp
  have h1: "filter (\<lambda>p. score p \<ge> 1 / 2) [?a, ?b, ?c] \<noteq> []"
    unfolding f by simp
  have h2: "distinct (map (\<lambda>p. (pbox p, score p)) (filter (\<lambda>p. score p \<ge> 1 / 2) [?a, ?b, ?c]))"
    unfolding f by simp
  have k: "nms_loop (map pbox [?a, ?c]) (1 / 2) (rev (argsort (map score [?a, ?c]))) [] = Inr [0, 1]"
    by (simp add: argsort_def getitem_def iou_def true_divide_def where_lt_def select_def)
  from pipeline_class_metadata_first_match [OF h1, of "1 / 2"] h2
  obtain keep where
    "nms_loop (map pbox (filter (\<lambda>p. score p \<ge> 1 / 2) [?a, ?b, ?c])) (1 / 2)
       (rev (argsort (map score (filter (\<lambda>p. score p \<ge> 1 / 2) [?a, ?b, ?c])))) [] = Inr keep"
    and p: "pipeline [?a, ?b, ?c] (1 / 2) (1 / 2)
       = Inr (map (\<lambda>i. filter (\<lambda>p. score p \<ge> 1 / 2) [?a, ?b, ?c] ! i) keep)"
    by blast
  then have "keep = [0, 1]"
    unfolding f using k by (simp only: sum.inject)
  with p have "pipeline [?a, ?b, ?c] (1 / 2) (1 / 2) = Inr (map (\<lambda>i. [?a, ?c] ! i) [0, 1])"
    unfolding f by (simp only:)
  then have first: "pipeline [?a, ?b, ?c] (1 / 2) (1 / 2) = Inr [?a, ?c]"
    by simp

  let ?d = "\<lparr>pbox = (0, 0, 10, 10), score = 9 / 10, class_id = 0, class_name = ''nguoi''\<rparr>"
  let ?e = "\<lparr>pbox = (0, 0, 10, 10), score = 9 / 10, class_id = 1, class_name = ''xe''\<rparr>"
  have g: "filter (\<lambda>p. score p \<ge> 1 / 2) [?d, ?e] = [?d, ?e]"
    by simp
  have h3: "filter (\<lambda>p. score p \<ge> 1 / 2) [?d, ?e] \<noteq> []"
    unfolding g by simp
  have k2: "nms_loop (map pbox [?d, ?e]) (1 / 2) (rev (argsort (map score [?d, ?e]))) [] = Inr [1]"
    by (simp add: argsort_def getitem_def iou_def true_divide_def where_lt_def select_def)
  have least: "(LEAST i. pbox ([?d, ?e] ! i) = pbox ([?d, ?e] ! 1) \<and>
                         score ([?d, ?e] ! i) = score ([?d, ?e] ! 1)) = 0"
    by (rule Least_equality) simp_all
  from pipeline_class_metadata_first_match [OF h3, of "1 / 2"]
  obtain keep2 where
    "nms_loop (map pbox (filter (\<lambda>p. score p \<ge> 1 / 2) [?d, ?e])) (1 / 2)
       (rev (argsort (map score (filter (\<lambda>p. score p \<ge> 1 / 2) [?d, ?e])))) [] = Inr keep2"
    and q: "pipeline [?d, ?e] (1 / 2) (1 / 2)
       = Inr (map (\<lambda>k.
           \<lparr>pbox = pbox (filter (\<lambda>p. score p \<ge> 1 / 2) [?d, ?e] ! k),
            score = score (filter (\<lambda>p. score p \<ge> 1 / 2) [?d, ?e] ! k),
            class_id = class_id (filter (\<lambda>p. score p \<ge> 1 / 2) [?d, ?e] !
              (LEAST i. pbox (filter (\<lambda>p. score p \<ge> 1 / 2) [?d, ?e] ! i)
                          = pbox (filter (\<lambda>p. score p \<ge> 1 / 2) [?d, ?e] ! k) \<and>
                        score (filter (\<lambda>p. score p \<ge> 1 / 2) [?d, ?e] ! i)
                          = score (filter (\<lambda>p. score p \<ge> 1 / 2) [?d, ?e] ! k))),
            class_name = class_name (filter (\<lambda>p. score p \<ge> 1 / 2) [?d, ?e] !
              (LEAST i. pbox (filter (\<lambda>p. score p \<ge> 1 / 2) [?d, ?e] ! i)
                          = pbox (filter (\<lambda>p. score p \<ge> 1 / 2) [?d, ?e] ! k) \<and>
                        score (filter (\<lambda>p. score p \<ge> 1 / 2) [?d, ?e] ! i)
                          = score (filter (\<lambda>p. score p \<ge> 1 / 2) [?d, ?e] ! k)))\<rparr>) keep2)"
    by blast
  then have "keep2 = [1]"
    unfolding g using k2 by (simp only: sum.inject)
  with q have "pipeline [?d, ?e] (1 / 2) (1 / 2)
       = Inr (map (\<lambda>k.
           \<lparr>pbox = pbox ([?d, ?e] ! k), score = score ([?d, ?e] ! k),
            class_id = class_id ([?d, ?e] !
              (LEAST i. pbox ([?d, ?e] ! i) = pbox ([?d, ?e] ! k) \<and>
                        score ([?d, ?e] ! i) = score ([?d, ?e] ! k))),
            class_name = class_name ([?d, ?e] !
              (LEAST i. pbox ([?d, ?e] ! i) = pbox ([?d, ?e] ! k) \<and>
                        score ([?d, ?e] ! i) = score ([?d, ?e] ! k)))\<rparr>) [1])"
    unfolding g by (simp only:)
  then have second: "pipeline [?d, ?e] (1 / 2) (1 / 2) = Inr [?d]"
    unfolding list.map least by simp
  from first second show ?thesis
    by (simp only: simp_thms)
qed

section \<open>Scenarios\<close>

text \<open>
  Claim C9. For A = (55,55,145,195) with score 0.95 and B = (60,60,160,210) with score
  0.88, the IoU of A and B is 153/215, which exceeds 0.5, and \<open>non_max_suppression\<close> with
  threshold 0.5 returns A alone.
\<close>

theorem scenario_two_overlapping_boxes:
  "iou (55, 55, 145, 195) (60, 60, 160, 210) = Inr (153 / 215) \<and> (1 / 2 :: rat) < 153 / 215 \<and>
   non_max_suppression [(55, 55, 145, 195), (60, 60, 160, 210)] [95 / 100, 88 / 100] (1 / 2)
     = Inr (BoxesScores [(55, 55, 145, 195)] [95 / 100])"
  by (simp add: non_max_suppression_def argsort_def getitem_def iou_def true_divide_def
      where_lt_def select_def)

text \<open>
  Claim C1. When the score filter leaves no detection, \<open>non_max_suppression\<close> returns the
  bare empty list and the two-name unpacking of \<open>main\<close> raises ValueError: shown on the
  empty input and on a single prediction below the threshold.
\<close>

theorem empty_pool_raises_value_error:
  "non_max_suppression [] [] (1 / 2) = Inr EmptyList \<and>
   pipeline [] (1 / 2) (1 / 2) = Inl ValueError \<and>
   pipeline [\<lparr>pbox = (10, 10, 30, 30), score = 30 / 100, class_id = 0, class_name = ''nguoi''\<rparr>]
     (1 / 2) (1 / 2) = Inl ValueError"
  by (simp add: pipeline_def non_max_suppression_def unpack2_def where_ge_def select_def)

end
